theory Spec2Isabelle
  imports Complex_Main
begin

section \<open>Text as the host program sees it\<close>

text \<open>
  A line is the text that \<^verbatim>\<open>ser.readline().decode(errors='ignore')\<close> yields. It is
  modelled as a \<^typ>\<open>string\<close> whose characters are code points below 256. The three
  character tests below are Python's \<^verbatim>\<open>str.isspace\<close>, \<^verbatim>\<open>str.isdigit\<close> and the
  decimal digits \<^verbatim>\<open>float()\<close> accepts, on that range.
\<close>

definition code_point :: "char \<Rightarrow> nat" where
  "code_point c = of_char c"

definition isspace :: "char \<Rightarrow> bool" where
  "isspace c = (let n = code_point c in
     (9 \<le> n \<and> n \<le> 13) \<or> (28 \<le> n \<and> n \<le> 32) \<or> n = 133 \<or> n = 160)"

definition isdecimal :: "char \<Rightarrow> bool" where
  "isdecimal c = (let n = code_point c in 48 \<le> n \<and> n \<le> 57)"

definition isdigit :: "char \<Rightarrow> bool" where
  "isdigit c = (let n = code_point c in
     (48 \<le> n \<and> n \<le> 57) \<or> n = 178 \<or> n = 179 \<or> n = 185)"

definition strip :: "string \<Rightarrow> string" where
  "strip s = rev (dropWhile isspace (rev (dropWhile isspace s)))"

definition startswith :: "string \<Rightarrow> string \<Rightarrow> bool" where
  "startswith s p = (take (length p) s = p)"

text \<open>\<^verbatim>\<open>s.split()\<close>: the maximal runs of non-whitespace characters, in order.\<close>

fun split_ws :: "string \<Rightarrow> string \<Rightarrow> string list" where
  "split_ws [] cur = (if cur = [] then [] else [cur])"
| "split_ws (c # cs) cur =
     (if isspace c then (if cur = [] then split_ws cs [] else cur # split_ws cs [])
      else split_ws cs (cur @ [c]))"

definition split :: "string \<Rightarrow> string list" where
  "split s = split_ws s []"

text \<open>\<^verbatim>\<open>p.split("=", 1)\<close>: cut at the first equals sign, if there is one.\<close>

definition split_eq1 :: "string \<Rightarrow> string list" where
  "split_eq1 p =
     (case dropWhile (\<lambda>c. c \<noteq> CHR ''='') p of
        [] \<Rightarrow> [p]
      | _ # v \<Rightarrow> [takeWhile (\<lambda>c. c \<noteq> CHR ''='') p, v])"

section \<open>Number extraction\<close>

text \<open>
  \<^verbatim>\<open>float(s)\<close> on the strings \<^verbatim>\<open>_extract_number\<close> hands it: an optional minus sign,
  then digits with at most one decimal point and at least one digit. Anything else is
  a \<^verbatim>\<open>ValueError\<close>, here \<^const>\<open>None\<close>. The value is the decimal number the text denotes;
  Python rounds it to the nearest double.
\<close>

definition digit_value :: "char \<Rightarrow> nat" where
  "digit_value c = code_point c - 48"

definition digits_value :: "string \<Rightarrow> nat" where
  "digits_value ds = foldl (\<lambda>acc c. 10 * acc + digit_value c) 0 ds"

definition unsigned_float :: "string \<Rightarrow> rat option" where
  "unsigned_float body =
     (let ip = takeWhile isdecimal body; rest = dropWhile isdecimal body
      in case rest of
           [] \<Rightarrow> (if ip = [] then None else Some (of_nat (digits_value ip)))
         | c # fp \<Rightarrow>
             (if c = CHR ''.'' \<and> list_all isdecimal fp \<and> (ip \<noteq> [] \<or> fp \<noteq> [])
              then Some (of_nat (digits_value (ip @ fp)) / 10 ^ length fp)
              else None))"

definition py_float :: "string \<Rightarrow> rat option" where
  "py_float s =
     (case s of
        [] \<Rightarrow> None
      | c # body \<Rightarrow>
          (if c = CHR ''-'' then map_option uminus (unsigned_float body)
           else unsigned_float s))"

definition extract_number :: "string \<Rightarrow> rat option" where
  "extract_number token =
     (let num_chars = filter (\<lambda>ch. isdigit ch \<or> ch = CHR ''.'' \<or> ch = CHR ''-'') (strip token)
      in if num_chars = [] then None else py_float num_chars)"

section \<open>The serial link and the clock\<close>

text \<open>
  Time is counted in milliseconds. Every call that blocks is a read of the port or a
  sleep, so the clock is kept with the port. \<open>incoming\<close> lists what the next
  \<^verbatim>\<open>readline\<close> calls return: how long the call blocks and the decoded text it returns.
  Once the list is used up the line is silent and each \<^verbatim>\<open>readline\<close> gives up after
  the port's read timeout (\<^verbatim>\<open>timeout=2\<close> in \<^verbatim>\<open>init_serial\<close>) with no text.
\<close>

record serial =
  clock :: nat
  incoming :: "(nat \<times> string) list"
  written :: string

definition PORT_TIMEOUT :: nat where
  "PORT_TIMEOUT = 2000"

definition readline :: "serial \<Rightarrow> string \<times> serial" where
  "readline ser =
     (case incoming ser of
        [] \<Rightarrow> ([], ser\<lparr>clock := clock ser + PORT_TIMEOUT\<rparr>)
      | (d, txt) # rest \<Rightarrow> (txt, ser\<lparr>clock := clock ser + d, incoming := rest\<rparr>))"

definition ser_write :: "string \<Rightarrow> serial \<Rightarrow> serial" where
  "ser_write bs ser = ser\<lparr>written := written ser @ bs\<rparr>"

definition time_sleep :: "nat \<Rightarrow> serial \<Rightarrow> serial" where
  "time_sleep d ser = ser\<lparr>clock := clock ser + d\<rparr>"

lemma readline_measure:
  "\<not> timeout < clock ser - start \<Longrightarrow>
   length (incoming (snd (readline ser))) < length (incoming ser) \<or>
   (length (incoming (snd (readline ser))) = length (incoming ser) \<and>
    Suc (start + timeout) - clock (snd (readline ser)) < Suc (start + timeout) - clock ser)"
  by (auto simp: readline_def PORT_TIMEOUT_def split: list.splits)

section \<open>Waiting for an acknowledgment\<close>

function wait_loop :: "nat \<Rightarrow> string \<Rightarrow> nat \<Rightarrow> serial \<Rightarrow> bool \<times> serial" where
  "wait_loop start expected_msg timeout ser =
     (if clock ser - start > timeout then (False, ser)
      else if strip (fst (readline ser)) = expected_msg then (True, snd (readline ser))
      else wait_loop start expected_msg timeout (snd (readline ser)))"
  by pat_completeness auto
termination
proof (relation "measures [\<lambda>(start, e, timeout, ser). length (incoming ser),
                           \<lambda>(start, e, timeout, ser). Suc (start + timeout) - clock ser]")
  show "wf (measures [\<lambda>(start, e, timeout, ser). length (incoming ser),
                      \<lambda>(start, e, timeout, ser). Suc (start + timeout) - clock ser])"
    by simp
next
  fix start :: nat and expected_msg :: string and timeout :: nat and ser :: serial
  assume "\<not> timeout < clock ser - start"
  from readline_measure [OF this]
  show "((start, expected_msg, timeout, snd (readline ser)), start, expected_msg, timeout, ser)
        \<in> measures [\<lambda>(start, e, timeout, ser). length (incoming ser),
                     \<lambda>(start, e, timeout, ser). Suc (start + timeout) - clock ser]"
    by auto
qed

definition wait_for_arduino :: "serial \<Rightarrow> string \<Rightarrow> nat \<Rightarrow> bool \<times> serial" where
  "wait_for_arduino ser expected_msg timeout = wait_loop (clock ser) expected_msg timeout ser"

section \<open>Reading a measurement\<close>

record measurement =
  weight :: "rat option"
  temp_c :: "rat option"
  hum_pct :: "rat option"

definition absent :: measurement where
  "absent = \<lparr>weight = None, temp_c = None, hum_pct = None\<rparr>"

datatype py_exception = IndexError

text \<open>\<^verbatim>\<open>xs[1]\<close>, which raises \<^verbatim>\<open>IndexError\<close> on a list shorter than two.\<close>

definition index1 :: "'a list \<Rightarrow> py_exception + 'a" where
  "index1 xs = (case xs of _ # v # _ \<Rightarrow> Inr v | _ \<Rightarrow> Inl IndexError)"

text \<open>
  The body of the \<^verbatim>\<open>try\<close> block: the loop over the fragments of one
  \<^verbatim>\<open>MEASURED\<close> line. It returns the three variables as they stand when the loop ends or
  an exception leaves it, and the exception if there was one.
\<close>

fun parse_parts :: "string list \<Rightarrow> measurement \<Rightarrow> measurement \<times> py_exception option" where
  "parse_parts [] m = (m, None)"
| "parse_parts (p0 # parts) m =
     (let p = strip p0 in
      if startswith p ''W='' then
        (case index1 (split_eq1 p) of
           Inl e \<Rightarrow> (m, Some e)
         | Inr val \<Rightarrow>
             (case extract_number val of
                None \<Rightarrow> parse_parts parts m
              | Some w \<Rightarrow> parse_parts parts (m\<lparr>weight := Some w\<rparr>)))
      else if startswith p ''T='' then
        (case index1 (split_eq1 p) of
           Inl e \<Rightarrow> (m, Some e)
         | Inr val \<Rightarrow>
             (case extract_number val of
                None \<Rightarrow> parse_parts parts m
              | Some t \<Rightarrow> parse_parts parts (m\<lparr>temp_c := Some t\<rparr>)))
      else if startswith p ''H='' then
        (case index1 (split_eq1 p) of
           Inl e \<Rightarrow> (m, Some e)
         | Inr val \<Rightarrow>
             (case extract_number val of
                None \<Rightarrow> parse_parts parts m
              | Some h \<Rightarrow> parse_parts parts (m\<lparr>hum_pct := Some h\<rparr>)))
      else parse_parts parts m)"

text \<open>
  One non-empty line inside the loop of \<^verbatim>\<open>read_measurement\<close>, up to the test for
  \<^verbatim>\<open>WEIGH_DONE\<close>. The \<^verbatim>\<open>except\<close> clause prints the exception and goes on, so only
  the variables survive.
\<close>

definition handle_line :: "string \<Rightarrow> measurement \<Rightarrow> measurement" where
  "handle_line line m =
     (if startswith line ''MEASURED'' then fst (parse_parts (drop 1 (split line)) m) else m)"

function read_loop :: "nat \<Rightarrow> nat \<Rightarrow> measurement \<Rightarrow> serial \<Rightarrow> measurement \<times> serial" where
  "read_loop start timeout m ser =
     (if clock ser - start > timeout then (absent, ser)
      else if strip (fst (readline ser)) = [] then read_loop start timeout m (snd (readline ser))
      else if strip (fst (readline ser)) = ''WEIGH_DONE''
        then (handle_line (strip (fst (readline ser))) m, snd (readline ser))
      else read_loop start timeout (handle_line (strip (fst (readline ser))) m) (snd (readline ser)))"
  by pat_completeness auto
termination
proof (relation "measures [\<lambda>(start, timeout, m, ser). length (incoming ser),
                           \<lambda>(start, timeout, m, ser). Suc (start + timeout) - clock ser]")
  show "wf (measures [\<lambda>(start, timeout, m, ser). length (incoming ser),
                      \<lambda>(start, timeout, m, ser). Suc (start + timeout) - clock ser])"
    by simp
next
  fix start timeout :: nat and m :: measurement and ser :: serial
  assume "\<not> timeout < clock ser - start"
  from readline_measure [OF this]
  show "((start, timeout, m, snd (readline ser)), start, timeout, m, ser)
        \<in> measures [\<lambda>(start, timeout, m, ser). length (incoming ser),
                     \<lambda>(start, timeout, m, ser). Suc (start + timeout) - clock ser]"
    by auto
next
  fix start timeout :: nat and m :: measurement and ser :: serial
  assume "\<not> timeout < clock ser - start"
  from readline_measure [OF this]
  show "((start, timeout, handle_line (strip (fst (readline ser))) m, snd (readline ser)),
         start, timeout, m, ser)
        \<in> measures [\<lambda>(start, timeout, m, ser). length (incoming ser),
                     \<lambda>(start, timeout, m, ser). Suc (start + timeout) - clock ser]"
    by auto
qed

definition read_measurement :: "serial \<Rightarrow> nat \<Rightarrow> measurement \<times> serial" where
  "read_measurement ser timeout = read_loop (clock ser) timeout absent ser"

section \<open>Configuration\<close>

text \<open>
  The constants of the \<^verbatim>\<open>CONFIG\<close> block that the modelled functions read, taken as a
  parameter; \<open>source_config\<close> holds the values the file sets. Times are in milliseconds.
\<close>

record config =
  FOCUS_WAIT_SECONDS :: nat
  WARMUP_FRAMES :: nat
  SAVE_RAW :: bool
  SAVE_ENHANCED :: bool
  RAW_DIR :: string
  ENH_DIR :: string
  ENABLE_CROP :: bool
  CROP_X :: int
  CROP_Y :: int
  CROP_W :: int
  CROP_H :: int

definition source_config :: config where
  "source_config =
     \<lparr>FOCUS_WAIT_SECONDS = 1000, WARMUP_FRAMES = 5, SAVE_RAW = True, SAVE_ENHANCED = True,
      RAW_DIR = ''raw_images'', ENH_DIR = ''enhanced_images'', ENABLE_CROP = False,
      CROP_X = 640, CROP_Y = 360, CROP_W = 2048, CROP_H = 1344\<rparr>"

section \<open>Images\<close>

text \<open>
  A frame is its list of rows, each row a list of pixels; \<^verbatim>\<open>img.shape[:2]\<close> is the
  number of rows and the length of a row. A frame without rows is returned as it is
  whatever its width, so the width the model gives it does not matter.
\<close>

type_synonym 'px frame = "'px list list"

definition apply_crop :: "config \<Rightarrow> 'px frame \<Rightarrow> 'px frame" where
  "apply_crop cfg img =
     (if \<not> ENABLE_CROP cfg then img
      else
        let h = int (length img);
            w = int (case img of [] \<Rightarrow> 0 | r # _ \<Rightarrow> length r);
            x = max 0 (CROP_X cfg);
            y = max 0 (CROP_Y cfg);
            x2 = min w (x + CROP_W cfg);
            y2 = min h (y + CROP_H cfg)
        in if x2 \<le> x \<or> y2 \<le> y then img
           else map (\<lambda>row. take (nat (x2 - x)) (drop (nat x) row))
                  (take (nat (y2 - y)) (drop (nat y) img)))"

text \<open>
  The OpenCV operations \<^verbatim>\<open>enhance_image_soft\<close> calls are library code; they are
  parameters of the model. \<open>clahe_apply\<close> takes the clip limit and the tile grid size of
  \<^verbatim>\<open>createCLAHE\<close>, \<open>filter2D\<close> the depth argument and the kernel.
\<close>

record ('px, 'ch) cv2 =
  cvtColor_BGR2LAB :: "'px frame \<Rightarrow> 'px frame"
  cvtColor_LAB2BGR :: "'px frame \<Rightarrow> 'px frame"
  cv2_split :: "'px frame \<Rightarrow> 'ch \<times> 'ch \<times> 'ch"
  cv2_merge :: "'ch \<times> 'ch \<times> 'ch \<Rightarrow> 'px frame"
  clahe_apply :: "rat \<Rightarrow> nat \<times> nat \<Rightarrow> 'ch \<Rightarrow> 'ch"
  filter2D :: "'px frame \<Rightarrow> int \<Rightarrow> rat list list \<Rightarrow> 'px frame"

definition sharpen_kernel :: "rat list list" where
  "sharpen_kernel = [[0, - (2 / 10), 0], [- (2 / 10), 18 / 10, - (2 / 10)], [0, - (2 / 10), 0]]"

definition enhance_image_soft :: "('px, 'ch) cv2 \<Rightarrow> 'px frame \<Rightarrow> 'px frame" where
  "enhance_image_soft cv img_bgr =
     (let lab = cvtColor_BGR2LAB cv img_bgr;
          l = fst (cv2_split cv lab);
          a = fst (snd (cv2_split cv lab));
          b = snd (snd (cv2_split cv lab));
          l2 = clahe_apply cv (15 / 10) (8, 8) l;
          lab2 = cv2_merge cv (l2, a, b);
          enhanced = cvtColor_LAB2BGR cv lab2
      in filter2D cv enhanced (- 1) sharpen_kernel)"

section \<open>The capture loop\<close>

text \<open>
  What the program touches besides the port: the frames the successive \<^verbatim>\<open>cap.read()\<close>
  calls return (\<^const>\<open>None\<close> for \<^verbatim>\<open>ret = False\<close>), the rows of the CSV file
  (\<^const>\<open>None\<close> while the file does not exist) and the images written by \<^verbatim>\<open>imwrite\<close>.
  Printing, the preview window, the creation of directories and the closing of the
  handles are left out: nothing modelled reads them.
\<close>

datatype csv_line =
  Header "string list"
| Row nat string string string "rat option" "rat option" "rat option"

record 'px world =
  port :: serial
  camera_opens :: bool
  camera :: "'px frame option list"
  csv_log :: "csv_line list option"
  images :: "(string \<times> 'px frame) list"

text \<open>
  The clock formatting of \<^verbatim>\<open>time.strftime\<close> and \<^verbatim>\<open>os.path.join\<close> are parameters
  too, next to the OpenCV operations.
\<close>

record ('px, 'ch) env =
  strftime :: "string \<Rightarrow> nat \<Rightarrow> string"
  path_join :: "string \<Rightarrow> string \<Rightarrow> string"
  cv :: "('px, 'ch) cv2"

definition ensure_csv_log :: "'px world \<Rightarrow> 'px world" where
  "ensure_csv_log w =
     (case csv_log w of
        None \<Rightarrow> w\<lparr>csv_log := Some [Header [''sample_idx'', ''timestamp'', ''raw_path'',
                   ''enh_path'', ''weight_g'', ''temp_c'', ''humidity_pct'']]\<rparr>
      | Some _ \<Rightarrow> w)"

text \<open>\<^verbatim>\<open>open(CSV_LOG, mode="a")\<close> and one \<^verbatim>\<open>writerow\<close>.\<close>

definition append_row :: "csv_line \<Rightarrow> 'px world \<Rightarrow> 'px world" where
  "append_row r w = w\<lparr>csv_log := Some ((case csv_log w of None \<Rightarrow> [] | Some rs \<Rightarrow> rs) @ [r])\<rparr>"

definition imwrite :: "string \<Rightarrow> 'px frame \<Rightarrow> 'px world \<Rightarrow> 'px world" where
  "imwrite path img w = w\<lparr>images := images w @ [(path, img)]\<rparr>"

definition cap_read :: "'px world \<Rightarrow> 'px frame option \<times> 'px world" where
  "cap_read w = (case camera w of [] \<Rightarrow> (None, w) | f # fs \<Rightarrow> (f, w\<lparr>camera := fs\<rparr>))"

fun discard_frames :: "nat \<Rightarrow> 'px world \<Rightarrow> 'px world" where
  "discard_frames 0 w = w"
| "discard_frames (Suc n) w = discard_frames n (snd (cap_read w))"

text \<open>
  \<^verbatim>\<open>ser.in_waiting\<close> is non-zero when received bytes are buffered, that is when the
  next read has text to return without blocking.
\<close>

definition in_waiting :: "serial \<Rightarrow> nat" where
  "in_waiting s = (case incoming s of [] \<Rightarrow> 0 | (d, txt) # _ \<Rightarrow> (if d = 0 then length txt else 0))"

function flush_initial :: "serial \<Rightarrow> serial" where
  "flush_initial s = (if in_waiting s \<noteq> 0 then flush_initial (snd (readline s)) else s)"
  by pat_completeness auto
termination
  by (relation "measure (\<lambda>s. length (incoming s))")
     (auto simp: in_waiting_def readline_def split: list.splits if_splits)

definition init_serial :: "serial \<Rightarrow> serial" where
  "init_serial s = flush_initial (time_sleep 2000 s)"

definition init_camera :: "'px world \<Rightarrow> 'px world option" where
  "init_camera w = (if \<not> camera_opens w then None else Some (snd (cap_read w)))"

text \<open>The decimal digits of a number, and \<^verbatim>\<open>{n:03d}\<close>.\<close>

function dec_digits :: "nat \<Rightarrow> string" where
  "dec_digits n =
     (if n < 10 then [char_of (48 + n)] else dec_digits (n div 10) @ [char_of (48 + n mod 10)])"
  by pat_completeness auto
termination
  by (relation "measure id") auto

definition fmt_03d :: "nat \<Rightarrow> string" where
  "fmt_03d n = replicate (3 - length (dec_digits n)) CHR ''0'' @ dec_digits n"

definition lower_char :: "char \<Rightarrow> char" where
  "lower_char c = (let n = code_point c in
     if (65 \<le> n \<and> n \<le> 90) \<or> (192 \<le> n \<and> n \<le> 222 \<and> n \<noteq> 215) then char_of (n + 32) else c)"

definition lower :: "string \<Rightarrow> string" where
  "lower s = map lower_char s"

text \<open>Step 2 of a cycle: the image. It returns \<^verbatim>\<open>raw_path\<close> and \<^verbatim>\<open>enh_path\<close>.\<close>

definition capture_image ::
  "config \<Rightarrow> ('px, 'ch) env \<Rightarrow> nat \<Rightarrow> 'px world \<Rightarrow> (string \<times> string) \<times> 'px world" where
  "capture_image cfg e sample_idx w0 =
     (let w1 = w0\<lparr>port := time_sleep (FOCUS_WAIT_SECONDS cfg) (port w0)\<rparr>;
          w2 = discard_frames (WARMUP_FRAMES cfg) w1;
          ret = fst (cap_read w2);
          w3 = snd (cap_read w2)
      in case ret of
           None \<Rightarrow> (([], []), w3)
         | Some frame \<Rightarrow>
             (let ts = strftime e ''%Y%m%d_%H%M%S'' (clock (port w3));
                  frame_proc = apply_crop cfg frame;
                  raw_path = (if SAVE_RAW cfg
                    then path_join e (RAW_DIR cfg)
                           (''sample_'' @ fmt_03d sample_idx @ ''_'' @ ts @ ''_raw.jpg'')
                    else []);
                  w4 = (if SAVE_RAW cfg then imwrite raw_path frame_proc w3 else w3);
                  enh_path = (if SAVE_ENHANCED cfg
                    then path_join e (ENH_DIR cfg)
                           (''sample_'' @ fmt_03d sample_idx @ ''_'' @ ts @ ''_enh.jpg'')
                    else []);
                  w5 = (if SAVE_ENHANCED cfg
                    then imwrite enh_path (enhance_image_soft (cv e) frame_proc) w4 else w4);
                  w6 = w5\<lparr>port := time_sleep 300 (port w5)\<rparr>
              in ((raw_path, enh_path), w6)))"

text \<open>
  One pass through the body of the \<^verbatim>\<open>while True\<close> loop once the operator has not
  typed \<^verbatim>\<open>q\<close>. It returns \<^verbatim>\<open>sample_idx\<close> as the pass leaves it.
\<close>

definition cycle ::
  "config \<Rightarrow> ('px, 'ch) env \<Rightarrow> nat \<Rightarrow> 'px world \<Rightarrow> nat \<times> 'px world" where
  "cycle cfg e sample_idx w =
     (let s1 = ser_write ''C'' (port w);
          ok = fst (wait_for_arduino s1 ''AT_CAPTURE'' 15000);
          s2 = snd (wait_for_arduino s1 ''AT_CAPTURE'' 15000)
      in if \<not> ok then (sample_idx, w\<lparr>port := s2\<rparr>)
         else
           let paths = fst (capture_image cfg e sample_idx (w\<lparr>port := s2\<rparr>));
               w1 = snd (capture_image cfg e sample_idx (w\<lparr>port := s2\<rparr>));
               s3 = ser_write ''W'' (port w1);
               m = fst (read_measurement s3 20000);
               s4 = snd (read_measurement s3 20000);
               s5 = ser_write ''H'' s4;
               s6 = snd (wait_for_arduino s5 ''AT_HOME'' 15000);
               ts_now = strftime e ''%Y-%m-%d %H:%M:%S'' (clock s6);
               w2 = append_row
                      (Row sample_idx ts_now (fst paths) (snd paths) (weight m) (temp_c m) (hum_pct m))
                      (w1\<lparr>port := s6\<rparr>)
           in (sample_idx + 1, w2))"

text \<open>
  The \<^verbatim>\<open>while True\<close> loop over what the operator types at the successive prompts. When
  the input ends before a \<^verbatim>\<open>q\<close>, \<^verbatim>\<open>input()\<close> raises \<^verbatim>\<open>EOFError\<close>.
\<close>

datatype run_end = Done nat | EOFError nat | NoCamera

fun capture_loop ::
  "config \<Rightarrow> ('px, 'ch) env \<Rightarrow> string list \<Rightarrow> nat \<Rightarrow> 'px world \<Rightarrow> run_end \<times> 'px world" where
  "capture_loop cfg e [] sample_idx w = (EOFError sample_idx, w)"
| "capture_loop cfg e (user_in # rest) sample_idx w =
     (if lower (strip user_in) = ''q'' then (Done sample_idx, w)
      else capture_loop cfg e rest (fst (cycle cfg e sample_idx w)) (snd (cycle cfg e sample_idx w)))"

definition main ::
  "config \<Rightarrow> ('px, 'ch) env \<Rightarrow> string list \<Rightarrow> 'px world \<Rightarrow> run_end \<times> 'px world" where
  "main cfg e keyboard w0 =
     (let w1 = ensure_csv_log w0;
          s1 = init_serial (port w1);
          s2 = time_sleep 500 (ser_write ''Z'' s1);
          s3 = snd (wait_for_arduino s2 ''ZERO_DONE'' 20000);
          w2 = w1\<lparr>port := s3\<rparr>
      in case init_camera w2 of
           None \<Rightarrow> (NoCamera, w2)
         | Some w3 \<Rightarrow> capture_loop cfg e keyboard 1 w3)"

section \<open>Notions used to state the properties\<close>





text \<open>A received line without the line terminators at its end.\<close>

definition strip_terminators :: "string \<Rightarrow> string" where
  "strip_terminators s = rev (dropWhile (\<lambda>c. c = CHR 0x0D \<or> c = CHR 0x0A) (rev s))"

text \<open>
  The reads of a port seen as a sequence: the \<open>i\<close>-th read from now on, and the time
  that has passed when it starts.
\<close>

definition nth_read :: "serial \<Rightarrow> nat \<Rightarrow> nat \<times> string" where
  "nth_read ser i = (if i < length (incoming ser) then incoming ser ! i else (PORT_TIMEOUT, []))"

primrec elapsed_before :: "serial \<Rightarrow> nat \<Rightarrow> nat" where
  "elapsed_before ser 0 = 0"
| "elapsed_before ser (Suc i) = elapsed_before ser i + fst (nth_read ser i)"

text \<open>
  The fragments of the \<^verbatim>\<open>MEASURED\<close> lines of a stream, in the order they arrive; the
  value a fragment carries for one key, if it parses; the values successfully parsed for
  the key; and the last of them, if any. \<open>latest new old\<close> is a field after a
  fragment: the new value if there is one, the old one otherwise.
\<close>

definition latest :: "'a option \<Rightarrow> 'a option \<Rightarrow> 'a option" where
  "latest new old = (case new of None \<Rightarrow> old | Some v \<Rightarrow> Some v)"

definition fragments :: "string list \<Rightarrow> string list" where
  "fragments lines =
     concat (map (\<lambda>l. if startswith (strip l) ''MEASURED'' then drop 1 (split (strip l)) else [])
               lines)"

definition fragment_value :: "string \<Rightarrow> string \<Rightarrow> rat option" where
  "fragment_value key p =
     (if startswith p key then extract_number (drop (length key) p) else None)"

definition parsed_values :: "string \<Rightarrow> string list \<Rightarrow> rat list" where
  "parsed_values key frags = List.map_filter (fragment_value key) frags"

definition last_parsed :: "string \<Rightarrow> string list \<Rightarrow> rat option" where
  "last_parsed key frags =
     (case rev (parsed_values key frags) of [] \<Rightarrow> None | v # _ \<Rightarrow> Some v)"

text \<open>The sample indices of the data rows of the CSV file, in the order they were written.\<close>

definition row_index :: "csv_line \<Rightarrow> nat option" where
  "row_index r = (case r of Header _ \<Rightarrow> None | Row i _ _ _ _ _ _ \<Rightarrow> Some i)"

definition recorded_indices :: "csv_line list option \<Rightarrow> nat list" where
  "recorded_indices file = List.map_filter row_index (case file of None \<Rightarrow> [] | Some rs \<Rightarrow> rs)"

text \<open>
  The configured rectangle, from \<open>(CROP_X, CROP_Y)\<close> with width \<open>CROP_W\<close> and height
  \<open>CROP_H\<close>, has no pixel in common with the frame.
\<close>

definition intersection_empty :: "config \<Rightarrow> 'px frame \<Rightarrow> bool" where
  "intersection_empty cfg img =
     (let h = int (length img);
          w = int (case img of [] \<Rightarrow> 0 | r # _ \<Rightarrow> length r)
      in min w (CROP_X cfg + CROP_W cfg) \<le> max 0 (CROP_X cfg) \<or>
         min h (CROP_Y cfg + CROP_H cfg) \<le> max 0 (CROP_Y cfg))"

section \<open>Example inputs\<close>

text \<open>
  An environment whose image operations leave the picture as it is, a two by two frame,
  and two worlds: a controller that only chatters for eighteen seconds before it
  measures, and one that answers every command at once. Then three crop rectangles for
  the frame: one to the right of it, one to the left of it, and its right column.
\<close>

definition example_env :: "(nat, nat frame) env" where
  "example_env =
     \<lparr>strftime = (\<lambda>fmt t. fmt), path_join = (\<lambda>a b. a @ ''/'' @ b),
      cv = \<lparr>cvtColor_BGR2LAB = (\<lambda>i. i), cvtColor_LAB2BGR = (\<lambda>i. i),
            cv2_split = (\<lambda>i. (i, i, i)), cv2_merge = (\<lambda>c. fst c),
            clahe_apply = (\<lambda>limit grid ch. ch), filter2D = (\<lambda>i depth k. i)\<rparr>\<rparr>"

definition example_frame :: "nat frame" where
  "example_frame = [[1, 2], [3, 4]]"

definition stalled_world :: "nat world" where
  "stalled_world =
     \<lparr>port = \<lparr>clock = 0,
               incoming = [(6000, ''BOOT OK''), (6000, ''moving''), (6000, ''moving''),
                           (10, ''MEASURED W=1.0g T=20.0C H=50.0%''), (10, ''WEIGH_DONE'')],
               written = []\<rparr>,
      camera_opens = True, camera = [Some [[0]]], csv_log = None, images = []\<rparr>"

definition prompt_world :: "nat world" where
  "prompt_world =
     \<lparr>port = \<lparr>clock = 0,
               incoming = [(100, ''ZERO_DONE''), (900, ''AT_CAPTURE''),
                           (700, ''MEASURED W=12.3g T=25.0C H=40.1%''), (10, ''WEIGH_DONE''),
                           (800, ''AT_HOME'')],
               written = []\<rparr>,
      camera_opens = True, camera = replicate 7 (Some example_frame), csv_log = None,
      images = []\<rparr>"

definition right_of_frame :: config where
  "right_of_frame = source_config\<lparr>ENABLE_CROP := True, CROP_X := 5, CROP_Y := 0,
     CROP_W := 1, CROP_H := 1\<rparr>"

definition left_of_frame :: config where
  "left_of_frame = source_config\<lparr>ENABLE_CROP := True, CROP_X := - 5, CROP_Y := 0,
     CROP_W := 1, CROP_H := 1\<rparr>"

definition right_column :: config where
  "right_column = source_config\<lparr>ENABLE_CROP := True, CROP_X := 1, CROP_Y := 0,
     CROP_W := 1, CROP_H := 2\<rparr>"

section \<open>Facts about text\<close>

lemma dropWhile_hd: "xs = [] \<or> \<not> P (hd xs) \<Longrightarrow> dropWhile P xs = xs"
  by (cases xs) auto

lemma strip_id:
  assumes "s = [] \<or> (\<not> isspace (hd s) \<and> \<not> isspace (last s))"
  shows "strip s = s"
proof (cases s rule: rev_cases)
  case Nil then show ?thesis by (simp add: strip_def)
next
  case (snoc ys y)
  with assms have h: "\<not> isspace (hd s)" and l: "\<not> isspace y" by auto
  from h have "dropWhile isspace s = s" by (simp add: dropWhile_hd)
  moreover from l snoc have "dropWhile isspace (rev s) = rev s" by simp
  ultimately show ?thesis by (simp add: strip_def)
qed

lemma strip_no_space: "\<forall>c\<in>set s. \<not> isspace c \<Longrightarrow> strip s = s"
  by (rule strip_id) (cases s; simp)

lemma set_strip: "set (strip v) \<subseteq> set v"
proof -
  have "set (strip v) \<subseteq> set (dropWhile isspace v)"
    unfolding strip_def using set_dropWhileD[of _ isspace "rev (dropWhile isspace v)"] by auto
  also have "\<dots> \<subseteq> set v" using set_dropWhileD[of _ isspace v] by auto
  finally show ?thesis .
qed

lemma split_ws_word:
  "\<forall>c\<in>set a. \<not> isspace c \<Longrightarrow> split_ws a cur = (if cur @ a = [] then [] else [cur @ a])"
  by (induction a arbitrary: cur) auto

lemma split_ws_app:
  "\<forall>c\<in>set a. \<not> isspace c \<Longrightarrow> isspace sp \<Longrightarrow>
   split_ws (a @ sp # b) cur = (if cur @ a = [] then split_ws b [] else (cur @ a) # split_ws b [])"
  by (induction a arbitrary: cur) auto



lemma split_ws_no_space:
  "\<forall>c\<in>set cur. \<not> isspace c \<Longrightarrow> \<forall>p\<in>set (split_ws s cur). \<forall>c\<in>set p. \<not> isspace c"
proof (induction s arbitrary: cur)
  case Nil then show ?case by simp
next
  case (Cons a s)
  show ?case
  proof (cases "isspace a")
    case True
    with Cons.IH[of "[]"] Cons.prems show ?thesis by simp
  next
    case False
    with Cons.prems have "\<forall>c\<in>set (cur @ [a]). \<not> isspace c" by simp
    from Cons.IH[OF this] False show ?thesis by simp
  qed
qed

lemma split_no_space: "p \<in> set (split s) \<Longrightarrow> c \<in> set p \<Longrightarrow> \<not> isspace c"
  unfolding split_def using split_ws_no_space[of "[]" s] by simp

section \<open>Facts about number extraction\<close>

lemma unsigned_float_needs_digit:
  assumes "\<forall>c\<in>set s. \<not> isdecimal c" shows "unsigned_float s = None"
proof (cases s)
  case Nil then show ?thesis by (simp add: unsigned_float_def)
next
  case (Cons a list)
  with assms have a: "\<not> isdecimal a" and l: "list_all isdecimal list \<Longrightarrow> list = []"
    by (cases list; simp)+
  from Cons a have "takeWhile isdecimal s = []" "dropWhile isdecimal s = a # list" by simp_all
  with l show ?thesis unfolding unsigned_float_def Let_def by auto
qed

lemma py_float_needs_digit: "\<forall>c\<in>set s. \<not> isdecimal c \<Longrightarrow> py_float s = None"
  by (cases s) (simp_all add: py_float_def unsigned_float_needs_digit)

lemma extract_number_needs_digit:
  assumes "\<forall>c\<in>set v. \<not> isdecimal c" shows "extract_number v = None"
proof -
  from assms set_strip[of v]
  have "\<forall>c\<in>set (filter (\<lambda>ch. isdigit ch \<or> ch = CHR ''.'' \<or> ch = CHR ''-'') (strip v)). \<not> isdecimal c"
    by auto
  then show ?thesis unfolding extract_number_def Let_def
    by (simp add: py_float_needs_digit)
qed





section \<open>Fragments of a measurement line\<close>

lemma index1_key: "index1 (split_eq1 (k # CHR ''='' # v)) = (if k = CHR ''='' then Inr (CHR ''='' # v) else Inr v)"
  by (simp add: split_eq1_def index1_def)

lemma parse_parts_W:
  "\<forall>c\<in>set v. \<not> isspace c \<Longrightarrow>
   parse_parts ((''W='' @ v) # parts) m =
     parse_parts parts (case extract_number v of None \<Rightarrow> m | Some w \<Rightarrow> m\<lparr>weight := Some w\<rparr>)"
  by (simp add: strip_id isspace_def code_point_def startswith_def index1_key split: option.split)

lemma parse_parts_T:
  "\<forall>c\<in>set v. \<not> isspace c \<Longrightarrow>
   parse_parts ((''T='' @ v) # parts) m =
     parse_parts parts (case extract_number v of None \<Rightarrow> m | Some t \<Rightarrow> m\<lparr>temp_c := Some t\<rparr>)"
  by (simp add: strip_id isspace_def code_point_def startswith_def index1_key split: option.split)

lemma parse_parts_H:
  "\<forall>c\<in>set v. \<not> isspace c \<Longrightarrow>
   parse_parts ((''H='' @ v) # parts) m =
     parse_parts parts (case extract_number v of None \<Rightarrow> m | Some h \<Rightarrow> m\<lparr>hum_pct := Some h\<rparr>)"
  by (simp add: strip_id isspace_def code_point_def startswith_def index1_key split: option.split)

lemma split_measured_one:
  assumes "\<forall>c\<in>set p. \<not> isspace c" and "p \<noteq> []"
  shows "split (''MEASURED '' @ p) = [''MEASURED'', p]"
proof -
  have "split_ws (''MEASURED'' @ CHR '' '' # p) [] = ''MEASURED'' # split_ws p []"
    by (subst split_ws_app) (simp_all add: isspace_def code_point_def)
  with assms show ?thesis by (simp add: split_def split_ws_word)
qed

text \<open>
  Claim C8. A fragment \<^verbatim>\<open>W=\<close>, \<^verbatim>\<open>T=\<close> or \<^verbatim>\<open>H=\<close> whose value has no decimal digit
  (such as \<^verbatim>\<open>W=abc\<close>) yields no number, leaves the three fields as they were, and
  raises nothing inside the \<^verbatim>\<open>try\<close> block; so a line made of that fragment leaves the
  record unchanged.
\<close>

theorem no_digits_no_update:
  assumes "\<forall>c\<in>set v. \<not> isdecimal c" and "\<forall>c\<in>set v. \<not> isspace c"
    and "key \<in> {''W='', ''T='', ''H=''}"
  shows "extract_number v = None \<and>
         parse_parts ((key @ v) # parts) m = parse_parts parts m \<and>
         parse_parts (drop 1 (split (''MEASURED '' @ key @ v))) m = (m, None) \<and>
         handle_line (''MEASURED '' @ key @ v) m = m"
proof -
  have none: "extract_number v = None"
    using assms(1) by (rule extract_number_needs_digit)
  have step: "parse_parts ((key @ v) # ps) m = parse_parts ps m" for ps
    using assms(2,3) none parse_parts_W[of v ps m] parse_parts_T[of v ps m] parse_parts_H[of v ps m]
    by auto
  have "\<forall>c\<in>set (key @ v). \<not> isspace c" "key @ v \<noteq> []"
    using assms(2,3) by (auto simp: isspace_def code_point_def)
  then have sp: "split (''MEASURED '' @ key @ v) = [''MEASURED'', key @ v]"
    by (rule split_measured_one)
  have one: "parse_parts [key @ v] m = (m, None)"
    by (simp only: step parse_parts.simps(1))
  have "drop 1 (split (''MEASURED '' @ key @ v)) = [key @ v]"
    by (simp only: sp) simp
  with one have body: "parse_parts (drop 1 (split (''MEASURED '' @ key @ v))) m = (m, None)"
    by (simp only:)
  have "startswith (''MEASURED '' @ key @ v) ''MEASURED''"
    by (simp add: startswith_def)
  then have "handle_line (''MEASURED '' @ key @ v) m = m"
    unfolding handle_line_def by (simp only: body if_True fst_conv)
  with none step body show ?thesis by blast
qed

theorem no_digits_no_update_witness:
  "list_all (\<lambda>c. \<not> isdecimal c \<and> \<not> isspace c) ''abc'' \<and>
   extract_number ''abc'' = None \<and>
   parse_parts [''W=abc''] absent = (absent, None) \<and>
   handle_line ''MEASURED W=abc'' absent = absent"
  using no_digits_no_update [of "''abc''" "''W=''" "[]" absent]
  by (simp add: isdecimal_def isspace_def code_point_def)

section \<open>Facts about the port and the two waiting loops\<close>

declare wait_loop.simps [simp del] read_loop.simps [simp del]

lemma wait_loop_late:
  "timeout < clock ser - start \<Longrightarrow> wait_loop start e timeout ser = (False, ser)"
  by (subst wait_loop.simps) simp

lemma wait_loop_hit:
  "\<not> timeout < clock ser - start \<Longrightarrow> strip (fst (readline ser)) = e \<Longrightarrow>
   wait_loop start e timeout ser = (True, snd (readline ser))"
  by (subst wait_loop.simps) simp

lemma wait_loop_miss:
  "\<not> timeout < clock ser - start \<Longrightarrow> strip (fst (readline ser)) \<noteq> e \<Longrightarrow>
   wait_loop start e timeout ser = wait_loop start e timeout (snd (readline ser))"
  by (subst wait_loop.simps) simp

lemma readline_text: "fst (readline ser) = snd (nth_read ser 0)"
  by (cases "incoming ser") (auto simp: readline_def nth_read_def)

lemma readline_clock: "clock (snd (readline ser)) = clock ser + fst (nth_read ser 0)"
  by (cases "incoming ser") (auto simp: readline_def nth_read_def)

lemma readline_written: "written (snd (readline ser)) = written ser"
  by (cases "incoming ser") (auto simp: readline_def)

lemma nth_read_after: "nth_read (snd (readline ser)) i = nth_read ser (Suc i)"
  by (cases "incoming ser") (auto simp: readline_def nth_read_def)

lemma elapsed_before_after:
  "elapsed_before ser (Suc i) = fst (nth_read ser 0) + elapsed_before (snd (readline ser)) i"
  by (induction i) (simp_all add: nth_read_after)

lemma elapsed_before_mono: "i \<le> j \<Longrightarrow> elapsed_before ser i \<le> elapsed_before ser j"
  by (induction j) (auto simp: le_Suc_eq)

lemma wait_loop_iff:
  "fst (wait_loop start expected_msg timeout ser) \<longleftrightarrow>
   (\<exists>i. strip (snd (nth_read ser i)) = expected_msg \<and>
        clock ser + elapsed_before ser i - start \<le> timeout)"
proof (induction start expected_msg timeout ser rule: wait_loop.induct)
  case (1 start expected_msg timeout ser)
  let ?ser' = "snd (readline ser)"
  let ?R = "\<lambda>s. \<exists>i. strip (snd (nth_read s i)) = expected_msg \<and>
                    clock s + elapsed_before s i - start \<le> timeout"
  show ?case
  proof (cases "clock ser - start > timeout")
    case True
    then have "\<not> ?R ser" by auto
    with True show ?thesis by (simp add: wait_loop_late)
  next
    case late: False
    show ?thesis
    proof (cases "strip (fst (readline ser)) = expected_msg")
      case True
      with late have "strip (snd (nth_read ser 0)) = expected_msg \<and>
                      clock ser + elapsed_before ser 0 - start \<le> timeout"
        by (simp add: readline_text)
      then have "?R ser" by blast
      with late True show ?thesis by (simp add: wait_loop_hit)
    next
      case False
      have "?R ser \<longleftrightarrow> ?R ?ser'"
      proof
        assume "?R ser"
        then obtain i where i: "strip (snd (nth_read ser i)) = expected_msg"
          "clock ser + elapsed_before ser i - start \<le> timeout" by blast
        have "i \<noteq> 0"
        proof
          assume "i = 0"
          with i(1) have "strip (fst (readline ser)) = expected_msg"
            by (simp add: readline_text)
          with False show False by simp
        qed
        then obtain j where j: "i = Suc j" by (cases i) auto
        with i have "strip (snd (nth_read ?ser' j)) = expected_msg"
          by (simp add: nth_read_after)
        moreover from i j have "clock ?ser' + elapsed_before ?ser' j - start \<le> timeout"
          by (simp only: readline_clock elapsed_before_after add.assoc)
        ultimately show "?R ?ser'" by blast
      next
        assume "?R ?ser'"
        then obtain j where j: "strip (snd (nth_read ?ser' j)) = expected_msg"
          "clock ?ser' + elapsed_before ?ser' j - start \<le> timeout" by blast
        then have "strip (snd (nth_read ser (Suc j))) = expected_msg"
          by (simp add: nth_read_after)
        moreover from j have "clock ser + elapsed_before ser (Suc j) - start \<le> timeout"
          by (simp only: readline_clock elapsed_before_after add.assoc)
        ultimately show "?R ser" by blast
      qed
      with "1.IH"[OF late False] late False show ?thesis by (simp add: wait_loop_miss)
    qed
  qed
qed

lemma wait_for_arduino_iff:
  "fst (wait_for_arduino ser expected_msg timeout) \<longleftrightarrow>
   (\<exists>i. strip (snd (nth_read ser i)) = expected_msg \<and> elapsed_before ser i \<le> timeout)"
  unfolding wait_for_arduino_def wait_loop_iff by simp

lemma wait_loop_written: "written (snd (wait_loop start expected_msg timeout ser)) = written ser"
proof (induction start expected_msg timeout ser rule: wait_loop.induct)
  case (1 start expected_msg timeout ser)
  show ?case
  proof (cases "timeout < clock ser - start")
    case True then show ?thesis by (simp add: wait_loop_late)
  next
    case intime: False
    show ?thesis
    proof (cases "strip (fst (readline ser)) = expected_msg")
      case True
      with intime show ?thesis by (simp add: wait_loop_hit readline_written)
    next
      case False
      with "1.IH"[OF intime False] intime show ?thesis
        by (simp add: wait_loop_miss readline_written)
    qed
  qed
qed


lemma handle_line_empty: "handle_line [] m = m"
  by (simp add: handle_line_def startswith_def)

lemma read_loop_step:
  assumes "\<not> timeout < clock ser - start" and "strip (fst (readline ser)) \<noteq> ''WEIGH_DONE''"
  shows "read_loop start timeout m ser =
         read_loop start timeout (handle_line (strip (fst (readline ser))) m) (snd (readline ser))"
proof (cases "strip (fst (readline ser)) = []")
  case True
  with assms(1) show ?thesis
    by (subst read_loop.simps) (simp add: handle_line_empty)
next
  case False
  with assms show ?thesis
    by (subst read_loop.simps) simp
qed

lemma read_loop_done_step:
  assumes "\<not> timeout < clock ser - start" and "strip (fst (readline ser)) = ''WEIGH_DONE''"
  shows "read_loop start timeout m ser = (m, snd (readline ser))"
proof -
  have "handle_line ''WEIGH_DONE'' m = m"
    by (simp add: handle_line_def startswith_def)
  with assms show ?thesis
    by (subst read_loop.simps) simp
qed

lemma read_loop_late:
  "timeout < clock ser - start \<Longrightarrow> read_loop start timeout m ser = (absent, ser)"
  by (subst read_loop.simps) simp

lemma readline_cons:
  "incoming ser = (d, txt) # rest \<Longrightarrow>
   readline ser = (txt, ser\<lparr>clock := clock ser + d, incoming := rest\<rparr>)"
  by (simp add: readline_def)

lemma read_loop_prefix:
  assumes "incoming ser = pre @ rest"
    and "\<forall>x\<in>set pre. strip (snd x) \<noteq> ''WEIGH_DONE''"
    and "clock ser + sum_list (map fst pre) - start \<le> timeout"
  shows "read_loop start timeout m ser =
         read_loop start timeout (foldl (\<lambda>acc x. handle_line (strip (snd x)) acc) m pre)
           (ser\<lparr>clock := clock ser + sum_list (map fst pre), incoming := rest\<rparr>)"
  using assms
proof (induction pre arbitrary: ser m)
  case Nil
  then have "ser\<lparr>clock := clock ser, incoming := rest\<rparr> = ser" by simp
  then show ?case by simp
next
  case (Cons x pre)
  obtain d tx where x: "x = (d, tx)" by (cases x)
  let ?ser' = "ser\<lparr>clock := clock ser + d, incoming := pre @ rest\<rparr>"
  from Cons.prems(1) x have rl: "readline ser = (tx, ?ser')"
    by (simp add: readline_cons)
  from Cons.prems(3) have intime: "\<not> timeout < clock ser - start" by simp
  from Cons.prems(2) x have nd: "strip (fst (readline ser)) \<noteq> ''WEIGH_DONE''"
    by (simp add: rl)
  have step: "read_loop start timeout m ser =
              read_loop start timeout (handle_line (strip tx) m) ?ser'"
    using read_loop_step[OF intime nd, of m] by (simp add: rl)
  have "read_loop start timeout (handle_line (strip tx) m) ?ser' =
        read_loop start timeout
          (foldl (\<lambda>acc x. handle_line (strip (snd x)) acc) (handle_line (strip tx) m) pre)
          (?ser'\<lparr>clock := clock ?ser' + sum_list (map fst pre), incoming := rest\<rparr>)"
  proof (rule Cons.IH)
    show "incoming ?ser' = pre @ rest" by simp
    show "\<forall>x\<in>set pre. strip (snd x) \<noteq> ''WEIGH_DONE''" using Cons.prems(2) by simp
    show "clock ?ser' + sum_list (map fst pre) - start \<le> timeout"
      using Cons.prems(3) x by (simp add: add.assoc)
  qed
  with step x show ?case by (simp add: add.assoc)
qed

lemma read_loop_until_done:
  assumes "incoming ser = pre @ (d, fin) # rest"
    and "strip fin = ''WEIGH_DONE''"
    and "\<forall>x\<in>set pre. strip (snd x) \<noteq> ''WEIGH_DONE''"
    and "clock ser + sum_list (map fst pre) - start \<le> timeout"
  shows "read_loop start timeout m ser =
         (foldl (\<lambda>acc x. handle_line (strip (snd x)) acc) m pre,
          ser\<lparr>clock := clock ser + sum_list (map fst pre) + d, incoming := rest\<rparr>)"
proof -
  let ?mid = "ser\<lparr>clock := clock ser + sum_list (map fst pre), incoming := (d, fin) # rest\<rparr>"
  have rl: "readline ?mid = (fin, ?mid\<lparr>clock := clock ?mid + d, incoming := rest\<rparr>)"
    by (rule readline_cons) simp
  have "\<not> timeout < clock ?mid - start" using assms(4) by simp
  moreover have "strip (fst (readline ?mid)) = ''WEIGH_DONE''" using assms(2) by (simp add: rl)
  ultimately have "read_loop start timeout m' ?mid = (m', snd (readline ?mid))" for m'
    by (rule read_loop_done_step)
  then show ?thesis
    using read_loop_prefix[OF assms(1,3,4), of m] by (simp add: rl)
qed


lemma wait_loop_False_step:
  assumes "\<not> fst (wait_loop start e timeout ser)" and "\<not> timeout < clock ser - start"
  shows "strip (fst (readline ser)) \<noteq> e"
    and "\<not> fst (wait_loop start e timeout (snd (readline ser)))"
proof -
  show ne: "strip (fst (readline ser)) \<noteq> e"
  proof
    assume "strip (fst (readline ser)) = e"
    with assms show False by (simp add: wait_loop_hit)
  qed
  from assms ne show "\<not> fst (wait_loop start e timeout (snd (readline ser)))"
    by (simp add: wait_loop_miss)
qed

lemma read_loop_wait:
  assumes "e = ''WEIGH_DONE''" and "\<not> fst (wait_loop start e timeout ser)"
  shows "read_loop start timeout m ser = (absent, snd (wait_loop start e timeout ser))"
  using assms
proof (induction start e timeout ser arbitrary: m rule: wait_loop.induct)
  case (1 start e timeout ser)
  show ?case
  proof (cases "timeout < clock ser - start")
    case True
    then show ?thesis by (simp add: read_loop_late wait_loop_late)
  next
    case intime: False
    note nd = wait_loop_False_step(1)[OF "1.prems"(2) intime]
    note rest = wait_loop_False_step(2)[OF "1.prems"(2) intime]
    from nd "1.prems"(1) have nd': "strip (fst (readline ser)) \<noteq> ''WEIGH_DONE''" by simp
    have "read_loop start timeout m ser =
          read_loop start timeout (handle_line (strip (fst (readline ser))) m) (snd (readline ser))"
      using intime nd' by (rule read_loop_step)
    also have "\<dots> = (absent, snd (wait_loop start e timeout (snd (readline ser))))"
      using intime nd "1.prems"(1) rest by (rule "1.IH")
    also have "\<dots> = (absent, snd (wait_loop start e timeout ser))"
      using intime nd by (simp add: wait_loop_miss)
    finally show ?thesis .
  qed
qed

lemma wait_loop_timeout_clock:
  assumes "\<not> fst (wait_loop start e timeout ser)"
  shows "timeout < clock (snd (wait_loop start e timeout ser)) - start"
  using assms
proof (induction start e timeout ser rule: wait_loop.induct)
  case (1 start e timeout ser)
  show ?case
  proof (cases "timeout < clock ser - start")
    case True then show ?thesis by (simp add: wait_loop_late)
  next
    case intime: False
    note nd = wait_loop_False_step(1)[OF "1.prems" intime]
    note rest = wait_loop_False_step(2)[OF "1.prems" intime]
    from "1.IH"[OF intime nd rest] intime nd show ?thesis by (simp add: wait_loop_miss)
  qed
qed

lemma wait_loop_timeout_bound:
  assumes "\<not> fst (wait_loop start e timeout ser)" and "\<And>i. fst (nth_read ser i) \<le> D"
  shows "clock (snd (wait_loop start e timeout ser)) = clock ser \<or>
         clock (snd (wait_loop start e timeout ser)) \<le> start + timeout + D"
  using assms
proof (induction start e timeout ser rule: wait_loop.induct)
  case (1 start e timeout ser)
  show ?case
  proof (cases "timeout < clock ser - start")
    case True then show ?thesis by (simp add: wait_loop_late)
  next
    case intime: False
    note nd = wait_loop_False_step(1)[OF "1.prems"(1) intime]
    note rest = wait_loop_False_step(2)[OF "1.prems"(1) intime]
    have later: "fst (nth_read (snd (readline ser)) i) \<le> D" for i
      using "1.prems"(2)[of "Suc i"] by (simp add: nth_read_after)
    have first: "clock (snd (readline ser)) \<le> start + timeout + D"
      using intime "1.prems"(2)[of 0] by (simp add: readline_clock)
    have same: "wait_loop start e timeout ser = wait_loop start e timeout (snd (readline ser))"
      using intime nd by (rule wait_loop_miss)
    from "1.IH"[OF intime nd rest later] first show ?thesis
      unfolding same by auto
  qed
qed

lemma nth_read_cases:
  "nth_read ser i \<in> set (incoming ser) \<or> nth_read ser i = (PORT_TIMEOUT, [])"
  by (simp add: nth_read_def)

lemma strip_empty: "strip [] = []"
  by (simp add: strip_def)

lemma never_done:
  assumes "\<forall>x\<in>set (incoming ser). strip (snd x) \<noteq> ''WEIGH_DONE''"
  shows "\<not> fst (wait_loop start ''WEIGH_DONE'' timeout ser)"
proof -
  have "strip (snd (nth_read ser i)) \<noteq> ''WEIGH_DONE''" for i
    using nth_read_cases[of ser i] assms by (auto simp: strip_empty)
  then show ?thesis by (simp add: wait_loop_iff)
qed

lemma reads_bounded:
  assumes "\<forall>x\<in>set (incoming ser). fst x \<le> D" and "PORT_TIMEOUT \<le> D"
  shows "fst (nth_read ser i) \<le> D"
  using nth_read_cases[of ser i] assms by auto

section \<open>The acknowledgment wait\<close>

lemma elapsed_before_prefix:
  "incoming ser = pre @ rest \<Longrightarrow> elapsed_before ser (length pre) = sum_list (map fst pre)"
proof (induction pre arbitrary: rest rule: rev_induct)
  case Nil show ?case by simp
next
  case (snoc x pre)
  from snoc.prems have "incoming ser = pre @ (x # rest)" by simp
  from snoc.IH[OF this] snoc.prems show ?case
    by (simp add: nth_read_def nth_append)
qed

lemma late_done_not_in_time:
  assumes "incoming ser = pre @ rest"
    and "\<forall>x\<in>set pre. strip (snd x) \<noteq> e"
    and "timeout < sum_list (map fst pre)"
  shows "\<not> (\<exists>i. strip (snd (nth_read ser i)) = e \<and> elapsed_before ser i \<le> timeout)"
proof
  assume "\<exists>i. strip (snd (nth_read ser i)) = e \<and> elapsed_before ser i \<le> timeout"
  then obtain i where i: "strip (snd (nth_read ser i)) = e" "elapsed_before ser i \<le> timeout"
    by blast
  have "length pre \<le> i"
  proof (rule ccontr)
    assume "\<not> length pre \<le> i"
    then have "i < length pre" by simp
    with assms(1) have "nth_read ser i = pre ! i" "pre ! i \<in> set pre"
      by (simp_all add: nth_read_def nth_append)
    with assms(2) i(1) show False by auto
  qed
  then have "elapsed_before ser (length pre) \<le> elapsed_before ser i"
    by (rule elapsed_before_mono)
  with elapsed_before_prefix[OF assms(1)] assms(3) i(2) show False by simp
qed

text \<open>
  Claim C7, as amended. The wait returns true exactly when some read that starts while
  no more than the timeout has passed returns a line that equals the expected message
  once the whitespace at both ends is stripped; every other line only uses up time, and
  otherwise the wait returns false.
\<close>

theorem wait_for_arduino_accepts:
  "fst (wait_for_arduino ser expected_msg timeout) \<longleftrightarrow>
   (\<exists>i. strip (snd (nth_read ser i)) = expected_msg \<and> elapsed_before ser i \<le> timeout)"
  by (rule wait_for_arduino_iff)

theorem wait_for_arduino_accepts_witness:
  "fst (wait_for_arduino
         \<lparr>clock = 0, incoming = [(10, ''BOOT OK''), (20, ''AT_CAPTURE'')], written = []\<rparr>
         ''AT_CAPTURE'' 15000) \<and>
   \<not> fst (wait_for_arduino
         \<lparr>clock = 0, incoming = [(10, ''BOOT OK''), (20, ''AT_CAPTUR'')], written = []\<rparr>
         ''AT_CAPTURE'' 15000)"
proof -
  let ?a = "\<lparr>clock = 0, incoming = [(10, ''BOOT OK''), (20, ''AT_CAPTURE'')], written = []\<rparr>"
  let ?b = "\<lparr>clock = 0, incoming = [(10, ''BOOT OK''), (20, ''AT_CAPTUR'')], written = []\<rparr>"
  have "strip (snd (nth_read ?a 1)) = ''AT_CAPTURE'' \<and> elapsed_before ?a 1 \<le> 15000"
    by (simp add: nth_read_def strip_def isspace_def code_point_def)
  then have a: "fst (wait_for_arduino ?a ''AT_CAPTURE'' 15000)"
    unfolding wait_for_arduino_accepts by (rule exI)
  have "strip (snd (nth_read ?b i)) \<noteq> ''AT_CAPTURE''" for i
    using nth_read_cases[of ?b i]
    by (auto simp: strip_def isspace_def code_point_def)
  then have b: "\<not> fst (wait_for_arduino ?b ''AT_CAPTURE'' 15000)"
    unfolding wait_for_arduino_accepts by simp
  from a b show ?thesis ..
qed

theorem wait_accepts_padded_line:
  "strip_terminators ([CHR 0x09] @ ''AT_CAPTURE '' @ [CHR 0x0D, CHR 0x0A]) \<noteq> ''AT_CAPTURE'' \<and>
   fst (wait_for_arduino
         \<lparr>clock = 0, incoming = [(10, [CHR 0x09] @ ''AT_CAPTURE '' @ [CHR 0x0D, CHR 0x0A])],
            written = []\<rparr>
         ''AT_CAPTURE'' 15000)"
proof -
  let ?line = "[CHR 0x09] @ ''AT_CAPTURE '' @ [CHR 0x0D, CHR 0x0A]"
  let ?ser = "\<lparr>clock = 0, incoming = [(10, ?line)], written = []\<rparr>"
  have "strip_terminators ?line \<noteq> ''AT_CAPTURE''"
    by (simp add: strip_terminators_def)
  moreover have "strip (snd (nth_read ?ser 0)) = ''AT_CAPTURE'' \<and> elapsed_before ?ser 0 \<le> 15000"
    by (simp add: nth_read_def strip_def isspace_def code_point_def)
  then have "fst (wait_for_arduino ?ser ''AT_CAPTURE'' 15000)"
    unfolding wait_for_arduino_iff by (rule exI)
  ultimately show ?thesis by simp
qed

section \<open>The measurement reader at its timeout\<close>

lemma read_measurement_absent:
  assumes "\<not> (\<exists>i. strip (snd (nth_read ser i)) = ''WEIGH_DONE'' \<and> elapsed_before ser i \<le> timeout)"
  shows "read_measurement ser timeout =
         (absent, snd (wait_loop (clock ser) ''WEIGH_DONE'' timeout ser))"
proof -
  from assms have "\<not> fst (wait_loop (clock ser) ''WEIGH_DONE'' timeout ser)"
    by (simp add: wait_loop_iff)
  then show ?thesis unfolding read_measurement_def
    by (rule read_loop_wait[OF refl])
qed

text \<open>
  Claim C5, as amended. When no \<^verbatim>\<open>WEIGH_DONE\<close> line ever comes, the reader returns the
  all-absent record; it returns after more than the timeout has passed, and no later
  than the timeout plus the longest time one read blocks (at least the port's own read
  timeout of two seconds).
\<close>

theorem read_measurement_never_done:
  assumes "\<forall>x\<in>set (incoming ser). strip (snd x) \<noteq> ''WEIGH_DONE''"
    and "\<forall>x\<in>set (incoming ser). fst x \<le> D" and "PORT_TIMEOUT \<le> D"
  shows "fst (read_measurement ser timeout) = absent \<and>
         timeout < clock (snd (read_measurement ser timeout)) - clock ser \<and>
         clock (snd (read_measurement ser timeout)) - clock ser \<le> timeout + D"
proof -
  let ?w = "wait_loop (clock ser) ''WEIGH_DONE'' timeout ser"
  have nf: "\<not> fst ?w" using assms(1) by (rule never_done)
  then have rm: "read_measurement ser timeout = (absent, snd ?w)"
    unfolding read_measurement_def by (rule read_loop_wait[OF refl])
  have after: "timeout < clock (snd ?w) - clock ser"
    using nf by (rule wait_loop_timeout_clock)
  have "fst (nth_read ser i) \<le> D" for i
    using assms(2,3) by (rule reads_bounded)
  with nf have "clock (snd ?w) = clock ser \<or> clock (snd ?w) \<le> clock ser + timeout + D"
    by (rule wait_loop_timeout_bound)
  with after have "clock (snd ?w) - clock ser \<le> timeout + D" by auto
  with rm after show ?thesis by simp
qed

theorem read_measurement_never_done_witness:
  "fst (read_measurement
         \<lparr>clock = 7, incoming = [(500, ''BOOT OK''), (1000, ''MEASURED W=1.5g'')], written = []\<rparr>
         20000) = absent \<and>
   20000 < clock (snd (read_measurement
         \<lparr>clock = 7, incoming = [(500, ''BOOT OK''), (1000, ''MEASURED W=1.5g'')], written = []\<rparr>
         20000)) - 7 \<and>
   clock (snd (read_measurement
         \<lparr>clock = 7, incoming = [(500, ''BOOT OK''), (1000, ''MEASURED W=1.5g'')], written = []\<rparr>
         20000)) - 7 \<le> 20000 + 2000"
  using read_measurement_never_done
    [of "\<lparr>clock = 7, incoming = [(500, ''BOOT OK''), (1000, ''MEASURED W=1.5g'')], written = []\<rparr>"
        2000 20000]
  by (simp add: strip_def isspace_def code_point_def PORT_TIMEOUT_def)

theorem read_measurement_overshoots:
  "fst (read_measurement \<lparr>clock = 0, incoming = [(19900, ''BOOT OK'')], written = []\<rparr> 20000)
     = absent \<and>
   clock (snd (read_measurement \<lparr>clock = 0, incoming = [(19900, ''BOOT OK'')], written = []\<rparr>
     20000)) = 21900"
proof -
  let ?s0 = "\<lparr>clock = 0, incoming = [(19900, ''BOOT OK'')], written = []\<rparr>"
  let ?s1 = "\<lparr>clock = 19900, incoming = [], written = []\<rparr>"
  let ?s2 = "\<lparr>clock = 21900, incoming = [], written = []\<rparr>"
  have r0: "readline ?s0 = (''BOOT OK'', ?s1)" by (simp add: readline_def)
  have r1: "readline ?s1 = ([], ?s2)" by (simp add: readline_def PORT_TIMEOUT_def)
  have "read_loop 0 20000 absent ?s0 = read_loop 0 20000 (handle_line ''BOOT OK'' absent) ?s1"
    by (subst read_loop_step) (simp_all add: r0 strip_def isspace_def code_point_def)
  also have "\<dots> = read_loop 0 20000 (handle_line [] (handle_line ''BOOT OK'' absent)) ?s2"
    by (subst read_loop_step) (simp_all add: r1 strip_def)
  also have "\<dots> = (absent, ?s2)"
    by (rule read_loop_late) simp
  finally show ?thesis by (simp add: read_measurement_def)
qed

text \<open>
  Claim C6, as amended. When the timeout check fires before a \<^verbatim>\<open>WEIGH_DONE\<close> line has
  been read (no read that starts while no more than the timeout has passed returns
  one), the reader returns the all-absent record, whatever the \<^verbatim>\<open>MEASURED\<close> lines read
  before had put in the fields. A \<^verbatim>\<open>WEIGH_DONE\<close> line that a read begun within the timeout
  returns is still accepted when it arrives after the timeout.
\<close>

theorem timeout_discards_partial:
  assumes "\<not> (\<exists>i. strip (snd (nth_read ser i)) = ''WEIGH_DONE'' \<and> elapsed_before ser i \<le> timeout)"
  shows "fst (read_measurement ser timeout) = absent"
  using read_measurement_absent[OF assms] by simp

theorem timeout_discards_partial_witness:
  "handle_line ''MEASURED W=1.5g T=20C'' absent =
     \<lparr>weight = Some (3 / 2), temp_c = Some 20, hum_pct = None\<rparr> \<and>
   fst (read_measurement
         \<lparr>clock = 0,
            incoming = [(1000, ''MEASURED W=1.5g T=20C''), (25000, ''homing''), (10, ''WEIGH_DONE'')],
            written = []\<rparr> 20000) = absent"
proof -
  let ?pre = "[(1000, ''MEASURED W=1.5g T=20C''), (25000 :: nat, ''homing'')]"
  let ?ser = "\<lparr>clock = 0, incoming = ?pre @ [(10, ''WEIGH_DONE'')], written = []\<rparr>"
  have "\<not> (\<exists>i. strip (snd (nth_read ?ser i)) = ''WEIGH_DONE'' \<and> elapsed_before ?ser i \<le> 20000)"
    by (rule late_done_not_in_time[where pre = ?pre and rest = "[(10, ''WEIGH_DONE'')]"])
       (simp_all add: strip_def isspace_def code_point_def)
  then have "fst (read_measurement ?ser 20000) = absent"
    by (rule timeout_discards_partial)
  moreover have "handle_line ''MEASURED W=1.5g T=20C'' absent =
     \<lparr>weight = Some (3 / 2), temp_c = Some 20, hum_pct = None\<rparr>"
    by code_simp
  ultimately show ?thesis by simp
qed

theorem late_weigh_done_keeps_fields:
  "20000 < elapsed_before
     \<lparr>clock = 0,
        incoming = [(2000, []), (2000, []), (2000, []), (2000, []), (2000, []), (2000, []),
                    (2000, []), (2000, []), (2000, []),
                    (1900, ''MEASURED W=1.5g''), (1500, ''WEIGH_DONE'')],
        written = []\<rparr> 11 \<and>
   fst (read_measurement
     \<lparr>clock = 0,
        incoming = [(2000, []), (2000, []), (2000, []), (2000, []), (2000, []), (2000, []),
                    (2000, []), (2000, []), (2000, []),
                    (1900, ''MEASURED W=1.5g''), (1500, ''WEIGH_DONE'')],
        written = []\<rparr> 20000) = \<lparr>weight = Some (3 / 2), temp_c = None, hum_pct = None\<rparr> \<and>
   fst (read_measurement
     \<lparr>clock = 0,
        incoming = [(2000, []), (2000, []), (2000, []), (2000, []), (2000, []), (2000, []),
                    (2000, []), (2000, []), (2000, []),
                    (1900, ''MEASURED W=1.5g''), (1500, ''WEIGH_DONE'')],
        written = []\<rparr> 20000) \<noteq> absent"
proof -
  let ?pre = "[(2000 :: nat, []), (2000, []), (2000, []), (2000, []), (2000, []), (2000, []),
               (2000, []), (2000, []), (2000, []), (1900, ''MEASURED W=1.5g'')]"
  let ?ser = "\<lparr>clock = 0, incoming = ?pre @ (1500, ''WEIGH_DONE'') # [], written = []\<rparr>"
  let ?all = "?pre @ [(1500, ''WEIGH_DONE'')]"
  have e0: "elapsed_before ?ser (length ?all) = sum_list (map fst ?all)"
    by (rule elapsed_before_prefix[where rest = "[]"]) simp
  have len: "length ?all = 11" by simp
  have total: "sum_list (map fst ?all) = 21400" by simp
  from e0 have el: "elapsed_before ?ser 11 = 21400"
    unfolding len total .
  have wd: "strip ''WEIGH_DONE'' = ''WEIGH_DONE''"
    by code_simp
  have ms: "strip ''MEASURED W=1.5g'' \<noteq> ''WEIGH_DONE''"
    by code_simp
  have line: "handle_line (strip ''MEASURED W=1.5g'') absent =
              \<lparr>weight = Some (3 / 2), temp_c = None, hum_pct = None\<rparr>"
    by code_simp
  have fold: "foldl (\<lambda>acc x. handle_line (strip (snd x)) acc) absent ?pre =
              \<lparr>weight = Some (3 / 2), temp_c = None, hum_pct = None\<rparr>"
    by (simp add: strip_empty handle_line_empty line)
  have "read_loop (clock ?ser) 20000 absent ?ser =
        (foldl (\<lambda>acc x. handle_line (strip (snd x)) acc) absent ?pre,
         ?ser\<lparr>clock := clock ?ser + sum_list (map fst ?pre) + 1500, incoming := []\<rparr>)"
    by (rule read_loop_until_done[where fin = "''WEIGH_DONE''"])
       (simp_all add: strip_empty wd ms)
  then have "fst (read_measurement ?ser 20000) =
             \<lparr>weight = Some (3 / 2), temp_c = None, hum_pct = None\<rparr>"
    unfolding read_measurement_def fold by simp
  with el show ?thesis by (simp add: absent_def)
qed

section \<open>Fields accumulated over a stream\<close>

lemma latest_simps:
  "latest None old = old" "latest (Some v) old = Some v" "latest new None = new"
  by (simp_all add: latest_def split: option.split)

lemma latest_assoc: "latest a (latest b c) = latest (latest a b) c"
  by (simp add: latest_def split: option.split)

lemma last_parsed_Nil: "last_parsed key [] = None"
  by (simp add: last_parsed_def parsed_values_def map_filter_simps)

lemma last_parsed_Cons:
  "last_parsed key (p # ps) = latest (last_parsed key ps) (fragment_value key p)"
  by (cases "fragment_value key p"; cases "rev (parsed_values key ps)")
     (simp_all add: last_parsed_def parsed_values_def map_filter_simps latest_def)

lemma last_parsed_append:
  "last_parsed key (xs @ ys) = latest (last_parsed key ys) (last_parsed key xs)"
  by (induction xs) (simp_all add: last_parsed_Nil last_parsed_Cons latest_simps latest_assoc)


lemma startswith_split: "startswith p k \<Longrightarrow> p = k @ drop (length k) p"
  unfolding startswith_def by (metis append_take_drop_id)

lemma parse_parts_step:
  assumes "\<forall>c\<in>set p. \<not> isspace c"
  shows "parse_parts (p # parts) m =
         parse_parts parts
           (m\<lparr>weight := latest (fragment_value ''W='' p) (weight m),
              temp_c := latest (fragment_value ''T='' p) (temp_c m),
              hum_pct := latest (fragment_value ''H='' p) (hum_pct m)\<rparr>)"
proof -
  consider (W) "startswith p ''W=''" | (T) "startswith p ''T=''" | (H) "startswith p ''H=''"
    | (other) "\<not> startswith p ''W=''" "\<not> startswith p ''T=''" "\<not> startswith p ''H=''"
    by blast
  then show ?thesis
  proof cases
    case W
    then obtain v where p: "p = ''W='' @ v" using startswith_split by blast
    with assms have v: "\<forall>c\<in>set v. \<not> isspace c" by simp
    have f: "fragment_value ''W='' p = extract_number v" "fragment_value ''T='' p = None"
      "fragment_value ''H='' p = None"
      unfolding p by (simp_all add: fragment_value_def startswith_def)
    show ?thesis unfolding f unfolding p parse_parts_W[OF v]
      by (cases "extract_number v") (simp_all add: latest_simps)
  next
    case T
    then obtain v where p: "p = ''T='' @ v" using startswith_split by blast
    with assms have v: "\<forall>c\<in>set v. \<not> isspace c" by simp
    have f: "fragment_value ''T='' p = extract_number v" "fragment_value ''W='' p = None"
      "fragment_value ''H='' p = None"
      unfolding p by (simp_all add: fragment_value_def startswith_def)
    show ?thesis unfolding f unfolding p parse_parts_T[OF v]
      by (cases "extract_number v") (simp_all add: latest_simps)
  next
    case H
    then obtain v where p: "p = ''H='' @ v" using startswith_split by blast
    with assms have v: "\<forall>c\<in>set v. \<not> isspace c" by simp
    have f: "fragment_value ''H='' p = extract_number v" "fragment_value ''W='' p = None"
      "fragment_value ''T='' p = None"
      unfolding p by (simp_all add: fragment_value_def startswith_def)
    show ?thesis unfolding f unfolding p parse_parts_H[OF v]
      by (cases "extract_number v") (simp_all add: latest_simps)
  next
    case other
    have sp: "strip p = p" using assms by (rule strip_no_space)
    have f: "fragment_value ''W='' p = None" "fragment_value ''T='' p = None"
      "fragment_value ''H='' p = None"
      using other by (simp_all add: fragment_value_def)
    have "parse_parts (p # parts) m = parse_parts parts m"
      using other by (simp add: sp)
    then show ?thesis unfolding f by (simp add: latest_simps)
  qed
qed


lemma parse_parts_fields:
  assumes "\<forall>p\<in>set parts. \<forall>c\<in>set p. \<not> isspace c"
  shows "parse_parts parts m =
         (\<lparr>weight = latest (last_parsed ''W='' parts) (weight m),
           temp_c = latest (last_parsed ''T='' parts) (temp_c m),
           hum_pct = latest (last_parsed ''H='' parts) (hum_pct m)\<rparr>, None)"
  using assms
proof (induction parts arbitrary: m)
  case Nil
  show ?case by (simp add: last_parsed_Nil latest_simps)
next
  case (Cons p parts)
  from Cons.prems have p: "\<forall>c\<in>set p. \<not> isspace c"
    and ps: "\<forall>p\<in>set parts. \<forall>c\<in>set p. \<not> isspace c" by simp_all
  show ?case
    unfolding parse_parts_step[OF p] Cons.IH[OF ps] last_parsed_Cons
    by (simp add: latest_assoc)
qed

lemma fragments_no_space: "\<forall>p\<in>set (fragments ls). \<forall>c\<in>set p. \<not> isspace c"
proof (intro ballI)
  fix p c assume "p \<in> set (fragments ls)" and c: "c \<in> set p"
  then obtain l where "p \<in> set (drop 1 (split (strip l)))"
    by (auto simp: fragments_def split: if_splits)
  then have "p \<in> set (split (strip l))" by (rule in_set_dropD)
  from split_no_space[OF this c] show "\<not> isspace c" .
qed

lemma handle_line_fields:
  "handle_line (strip l) m =
     \<lparr>weight = latest (last_parsed ''W='' (fragments [l])) (weight m),
      temp_c = latest (last_parsed ''T='' (fragments [l])) (temp_c m),
      hum_pct = latest (last_parsed ''H='' (fragments [l])) (hum_pct m)\<rparr>"
proof (cases "startswith (strip l) ''MEASURED''")
  case True
  then have fr: "fragments [l] = drop 1 (split (strip l))" by (simp add: fragments_def)
  have "handle_line (strip l) m = fst (parse_parts (fragments [l]) m)"
    using True by (simp add: handle_line_def fr)
  then show ?thesis
    by (simp add: parse_parts_fields[OF fragments_no_space])
next
  case False
  then have "fragments [l] = []" by (simp add: fragments_def)
  with False show ?thesis by (simp add: handle_line_def last_parsed_Nil latest_simps)
qed

lemma fragments_Cons: "fragments (l # ls) = fragments [l] @ fragments ls"
  by (simp add: fragments_def)

lemma fold_lines_fields:
  "foldl (\<lambda>acc x. handle_line (strip (snd x)) acc) m pre =
     \<lparr>weight = latest (last_parsed ''W='' (fragments (map snd pre))) (weight m),
      temp_c = latest (last_parsed ''T='' (fragments (map snd pre))) (temp_c m),
      hum_pct = latest (last_parsed ''H='' (fragments (map snd pre))) (hum_pct m)\<rparr>"
proof (induction pre arbitrary: m)
  case Nil
  show ?case by (simp add: fragments_def last_parsed_Nil latest_simps)
next
  case (Cons x pre)
  have fr: "fragments (map snd (x # pre)) = fragments [snd x] @ fragments (map snd pre)"
    using fragments_Cons[of "snd x" "map snd pre"] by simp
  let ?m = "handle_line (strip (snd x)) m"
  have "foldl (\<lambda>acc x. handle_line (strip (snd x)) acc) m (x # pre) =
        foldl (\<lambda>acc x. handle_line (strip (snd x)) acc) ?m pre"
    by (simp only: foldl_Cons)
  also have "\<dots> =
     \<lparr>weight = latest (last_parsed ''W='' (fragments (map snd pre))) (weight ?m),
      temp_c = latest (last_parsed ''T='' (fragments (map snd pre))) (temp_c ?m),
      hum_pct = latest (last_parsed ''H='' (fragments (map snd pre))) (hum_pct ?m)\<rparr>"
    by (rule Cons.IH)
  finally show ?case
    unfolding fr last_parsed_append
    by (simp add: handle_line_fields[of "snd x" m] latest_assoc)
qed

lemma read_measurement_until_done:
  assumes "incoming ser = pre @ (d, fin) # rest"
    and "strip fin = ''WEIGH_DONE''"
    and "\<forall>x\<in>set pre. strip (snd x) \<noteq> ''WEIGH_DONE''"
    and "sum_list (map fst pre) \<le> timeout"
  shows "fst (read_measurement ser timeout) =
         \<lparr>weight = last_parsed ''W='' (fragments (map snd pre)),
          temp_c = last_parsed ''T='' (fragments (map snd pre)),
          hum_pct = last_parsed ''H='' (fragments (map snd pre))\<rparr>"
proof -
  from assms(4) have "clock ser + sum_list (map fst pre) - clock ser \<le> timeout" by simp
  from read_loop_until_done[OF assms(1,2,3) this, of absent]
  show ?thesis
    by (simp add: read_measurement_def fold_lines_fields absent_def latest_simps)
qed

text \<open>
  Claim C4. When the lines read before \<^verbatim>\<open>WEIGH_DONE\<close> arrive within the timeout, each
  field of the record returned is the last value successfully parsed for its key among
  all the fragments of all the \<^verbatim>\<open>MEASURED\<close> lines, and is absent when no fragment of
  that key parsed: the union of the fields, the last parsed value winning, and a
  fragment that does not parse changing nothing.
\<close>

theorem fields_accumulate:
  assumes "incoming ser = pre @ (d, fin) # rest"
    and "strip fin = ''WEIGH_DONE''"
    and "\<forall>x\<in>set pre. strip (snd x) \<noteq> ''WEIGH_DONE''"
    and "sum_list (map fst pre) \<le> timeout"
  shows "fst (read_measurement ser timeout) =
         \<lparr>weight = last_parsed ''W='' (fragments (map snd pre)),
          temp_c = last_parsed ''T='' (fragments (map snd pre)),
          hum_pct = last_parsed ''H='' (fragments (map snd pre))\<rparr>"
  using assms by (rule read_measurement_until_done)

theorem fields_accumulate_witness:
  "fst (read_measurement
         \<lparr>clock = 0,
            incoming = [(10, ''BOOT OK''), (10, ''MEASURED W=12.3g T=25.0C H=40.1%''),
                        (10, ''MEASURED H=41.0% W=abc''), (10, ''WEIGH_DONE'')],
            written = []\<rparr> 20000) =
   \<lparr>weight = Some (123 / 10), temp_c = Some 25, hum_pct = Some 41\<rparr>"
proof -
  let ?pre = "[(10 :: nat, ''BOOT OK''), (10, ''MEASURED W=12.3g T=25.0C H=40.1%''),
               (10, ''MEASURED H=41.0% W=abc'')]"
  let ?ser = "\<lparr>clock = 0, incoming = ?pre @ (10, ''WEIGH_DONE'') # [], written = []\<rparr>"
  have fr: "fragments (map snd ?pre) = [''W=12.3g'', ''T=25.0C'', ''H=40.1%'', ''H=41.0%'', ''W=abc'']"
    by code_simp
  have v: "last_parsed ''W='' [''W=12.3g'', ''T=25.0C'', ''H=40.1%'', ''H=41.0%'', ''W=abc''] = Some (123 / 10)"
    "last_parsed ''T='' [''W=12.3g'', ''T=25.0C'', ''H=40.1%'', ''H=41.0%'', ''W=abc''] = Some 25"
    "last_parsed ''H='' [''W=12.3g'', ''T=25.0C'', ''H=40.1%'', ''H=41.0%'', ''W=abc''] = Some 41"
    by code_simp+
  have "fst (read_measurement ?ser 20000) =
         \<lparr>weight = last_parsed ''W='' (fragments (map snd ?pre)),
          temp_c = last_parsed ''T='' (fragments (map snd ?pre)),
          hum_pct = last_parsed ''H='' (fragments (map snd ?pre))\<rparr>"
    by (rule fields_accumulate[where d = 10 and fin = "''WEIGH_DONE''" and rest = "[]"])
       (simp_all add: strip_def isspace_def code_point_def)
  then show ?thesis unfolding fr v by simp
qed

section \<open>A well-formed measurement line\<close>













section \<open>One cycle and a whole run\<close>

lemma nth_read_write: "nth_read (ser_write bs s) i = nth_read s i"
  by (simp add: nth_read_def ser_write_def)

lemma elapsed_before_write: "elapsed_before (ser_write bs s) i = elapsed_before s i"
  by (induction i) (simp_all add: nth_read_write)

lemma wait_for_arduino_written:
  "written (snd (wait_for_arduino s e timeout)) = written s"
  by (simp add: wait_for_arduino_def wait_loop_written)

lemma cycle_skipped:
  assumes "\<not> fst (wait_for_arduino (ser_write ''C'' (port w)) ''AT_CAPTURE'' 15000)"
  shows "cycle cfg e sample_idx w =
         (sample_idx,
          w\<lparr>port := snd (wait_for_arduino (ser_write ''C'' (port w)) ''AT_CAPTURE'' 15000)\<rparr>)"
  using assms by (simp add: cycle_def Let_def)

text \<open>
  Claim C1, as amended. When no read that starts within the 15 s timeout returns an
  \<^verbatim>\<open>AT_CAPTURE\<close> line, the acknowledgment wait returns false, and the cycle ends there:
  the only byte sent is \<^verbatim>\<open>C\<close> (no weigh command), nothing is read from the camera, no
  image and no record is written, and the sample index stays as it was.
\<close>

theorem capture_timeout_skips_cycle:
  assumes "\<not> (\<exists>i. strip (snd (nth_read (port w) i)) = ''AT_CAPTURE'' \<and>
                  elapsed_before (port w) i \<le> 15000)"
  shows "\<not> fst (wait_for_arduino (ser_write ''C'' (port w)) ''AT_CAPTURE'' 15000) \<and>
         fst (cycle cfg e sample_idx w) = sample_idx \<and>
         written (port (snd (cycle cfg e sample_idx w))) = written (port w) @ ''C'' \<and>
         camera (snd (cycle cfg e sample_idx w)) = camera w \<and>
         images (snd (cycle cfg e sample_idx w)) = images w \<and>
         csv_log (snd (cycle cfg e sample_idx w)) = csv_log w"
proof -
  from assms
  have nf: "\<not> fst (wait_for_arduino (ser_write ''C'' (port w)) ''AT_CAPTURE'' 15000)"
    by (simp add: wait_for_arduino_iff nth_read_write elapsed_before_write)
  have "written (snd (wait_for_arduino (ser_write ''C'' (port w)) ''AT_CAPTURE'' 15000)) =
        written (port w) @ ''C''"
    by (simp add: wait_for_arduino_written ser_write_def)
  with nf show ?thesis by (simp add: cycle_skipped[OF nf])
qed


theorem capture_timeout_skips_cycle_witness:
  "\<not> fst (wait_for_arduino (ser_write ''C'' (port stalled_world)) ''AT_CAPTURE'' 15000) \<and>
   fst (cycle source_config example_env 1 stalled_world) = 1 \<and>
   written (port (snd (cycle source_config example_env 1 stalled_world))) = ''C'' \<and>
   csv_log (snd (cycle source_config example_env 1 stalled_world)) = None"
proof -
  let ?pre = "[(6000 :: nat, ''BOOT OK''), (6000, ''moving''), (6000, ''moving'')]"
  have "\<not> (\<exists>i. strip (snd (nth_read (port stalled_world) i)) = ''AT_CAPTURE'' \<and>
                elapsed_before (port stalled_world) i \<le> 15000)"
    by (rule late_done_not_in_time[where pre = ?pre and
          rest = "[(10, ''MEASURED W=1.0g T=20.0C H=50.0%''), (10, ''WEIGH_DONE'')]"])
       (simp_all add: stalled_world_def strip_def isspace_def code_point_def)
  from capture_timeout_skips_cycle[OF this, of source_config example_env 1]
  show ?thesis by (simp add: stalled_world_def)
qed


theorem capture_timeout_sends_no_weigh:
  "\<not> fst (wait_for_arduino (ser_write ''C'' (port stalled_world)) ''AT_CAPTURE'' 15000) \<and>
   CHR ''W'' \<notin> set (written (port (snd (cycle source_config example_env 1 stalled_world)))) \<and>
   recorded_indices (csv_log (snd (cycle source_config example_env 1 stalled_world))) = []"
proof -
  let ?pre = "[(6000 :: nat, ''BOOT OK''), (6000, ''moving''), (6000, ''moving'')]"
  let ?s = "ser_write ''C'' (port stalled_world)"
  have "\<not> (\<exists>i. strip (snd (nth_read ?s i)) = ''AT_CAPTURE'' \<and> elapsed_before ?s i \<le> 15000)"
    by (rule late_done_not_in_time[where pre = ?pre and
          rest = "[(10, ''MEASURED W=1.0g T=20.0C H=50.0%''), (10, ''WEIGH_DONE'')]"])
       (simp_all add: stalled_world_def ser_write_def strip_def isspace_def code_point_def)
  then have nf: "\<not> fst (wait_for_arduino ?s ''AT_CAPTURE'' 15000)"
    unfolding wait_for_arduino_iff .
  have wr: "written (snd (wait_for_arduino ?s ''AT_CAPTURE'' 15000)) = ''C''"
    by (simp add: wait_for_arduino_written ser_write_def stalled_world_def)
  have csv: "csv_log stalled_world = None"
    by (simp add: stalled_world_def)
  have cyc: "cycle source_config example_env 1 stalled_world =
             (1, stalled_world\<lparr>port := snd (wait_for_arduino ?s ''AT_CAPTURE'' 15000)\<rparr>)"
    using nf by (rule cycle_skipped)
  from nf show ?thesis
    unfolding cyc by (simp add: wr csv recorded_indices_def map_filter_simps)
qed

section \<open>The sample index over a run\<close>

lemma discard_frames_keeps:
  "csv_log (discard_frames n w) = csv_log w"
  "images (discard_frames n w) = images w"
  "port (discard_frames n w) = port w"
  by (induction n arbitrary: w) (simp_all add: cap_read_def split: list.split)

lemma cap_read_keeps:
  "csv_log (snd (cap_read w)) = csv_log w"
  "images (snd (cap_read w)) = images w"
  "port (snd (cap_read w)) = port w"
  by (simp_all add: cap_read_def split: list.split)

lemma capture_image_csv: "csv_log (snd (capture_image cfg e sample_idx w)) = csv_log w"
  by (simp add: capture_image_def Let_def imwrite_def discard_frames_keeps cap_read_keeps
      split: option.split)

lemma recorded_indices_append_row:
  "recorded_indices (csv_log (append_row (Row i ts rp ep wt t h) w)) =
   recorded_indices (csv_log w) @ [i]"
  by (simp add: append_row_def recorded_indices_def row_index_def map_filter_def
      split: option.split)

lemma cycle_completed:
  assumes "fst (wait_for_arduino (ser_write ''C'' (port w)) ''AT_CAPTURE'' 15000)"
  shows "fst (cycle cfg e sample_idx w) = sample_idx + 1"
    and "recorded_indices (csv_log (snd (cycle cfg e sample_idx w))) =
         recorded_indices (csv_log w) @ [sample_idx]"
  using assms
  by (simp_all add: cycle_def Let_def recorded_indices_append_row capture_image_csv)

lemma cycle_indices:
  "fst (cycle cfg e sample_idx w) = sample_idx \<and>
     recorded_indices (csv_log (snd (cycle cfg e sample_idx w))) = recorded_indices (csv_log w)
   \<or>
   fst (cycle cfg e sample_idx w) = sample_idx + 1 \<and>
     recorded_indices (csv_log (snd (cycle cfg e sample_idx w))) =
       recorded_indices (csv_log w) @ [sample_idx]"
proof (cases "fst (wait_for_arduino (ser_write ''C'' (port w)) ''AT_CAPTURE'' 15000)")
  case True
  from cycle_completed[OF this] show ?thesis by blast
next
  case False
  from cycle_skipped[OF this, of cfg e sample_idx] show ?thesis by simp
qed

lemma capture_loop_indices:
  "\<exists>n. idx \<le> n \<and> fst (capture_loop cfg e keyboard idx w) \<in> {Done n, EOFError n} \<and>
       recorded_indices (csv_log (snd (capture_loop cfg e keyboard idx w))) =
         recorded_indices (csv_log w) @ [idx ..< n]"
proof (induction keyboard arbitrary: idx w)
  case Nil
  show ?case by (rule exI[of _ idx]) simp
next
  case (Cons user_in rest)
  show ?case
  proof (cases "lower (strip user_in) = ''q''")
    case True
    show ?thesis by (rule exI[of _ idx]) (simp add: True)
  next
    case False
    let ?idx' = "fst (cycle cfg e idx w)" and ?w' = "snd (cycle cfg e idx w)"
    from Cons.IH[of ?idx' ?w'] obtain n where n: "?idx' \<le> n"
      "fst (capture_loop cfg e rest ?idx' ?w') \<in> {Done n, EOFError n}"
      "recorded_indices (csv_log (snd (capture_loop cfg e rest ?idx' ?w'))) =
         recorded_indices (csv_log ?w') @ [?idx' ..< n]"
      by blast
    have step: "capture_loop cfg e (user_in # rest) idx w = capture_loop cfg e rest ?idx' ?w'"
      using False by simp
    from cycle_indices[of cfg e idx w]
    have "idx \<le> n \<and> recorded_indices (csv_log ?w') @ [?idx' ..< n] =
            recorded_indices (csv_log w) @ [idx ..< n]"
    proof
      assume "?idx' = idx \<and> recorded_indices (csv_log ?w') = recorded_indices (csv_log w)"
      with n(1) show ?thesis by simp
    next
      assume a: "?idx' = idx + 1 \<and>
        recorded_indices (csv_log ?w') = recorded_indices (csv_log w) @ [idx]"
      with n(1) have "idx < n" by simp
      then have "[idx ..< n] = idx # [idx + 1 ..< n]" by (simp add: upt_conv_Cons)
      with a n(1) show ?thesis by simp
    qed
    with n(2,3) show ?thesis unfolding step by (intro exI[of _ n]) simp
  qed
qed

lemma ensure_csv_log_indices:
  "recorded_indices (csv_log (ensure_csv_log w)) = recorded_indices (csv_log w)"
  by (simp add: ensure_csv_log_def recorded_indices_def row_index_def map_filter_simps
      split: option.split)

lemma main_indices:
  "recorded_indices (csv_log (snd (main cfg e keyboard w0))) =
   recorded_indices (csv_log w0) @
     (case fst (main cfg e keyboard w0) of
        Done n \<Rightarrow> [1 ..< n] | EOFError n \<Rightarrow> [1 ..< n] | NoCamera \<Rightarrow> [])"
proof -
  let ?w1 = "ensure_csv_log w0"
  let ?w2 = "?w1\<lparr>port := snd (wait_for_arduino
               (time_sleep 500 (ser_write ''Z'' (init_serial (port ?w1)))) ''ZERO_DONE'' 20000)\<rparr>"
  have w2: "recorded_indices (csv_log ?w2) = recorded_indices (csv_log w0)"
    by (simp add: ensure_csv_log_indices)
  show ?thesis
  proof (cases "camera_opens ?w2")
    case False
    then have "main cfg e keyboard w0 = (NoCamera, ?w2)"
      by (simp add: main_def Let_def init_camera_def)
    with w2 show ?thesis by simp
  next
    case True
    let ?w3 = "snd (cap_read ?w2)"
    have m: "main cfg e keyboard w0 = capture_loop cfg e keyboard 1 ?w3"
      using True by (simp add: main_def Let_def init_camera_def)
    have w3: "recorded_indices (csv_log ?w3) = recorded_indices (csv_log w0)"
      using w2 by (simp only: cap_read_keeps)
    from capture_loop_indices[of 1 cfg e keyboard ?w3] obtain n where
      "fst (capture_loop cfg e keyboard 1 ?w3) \<in> {Done n, EOFError n}"
      "recorded_indices (csv_log (snd (capture_loop cfg e keyboard 1 ?w3))) =
         recorded_indices (csv_log ?w3) @ [1 ..< n]"
      by blast
    then show ?thesis unfolding m w3 by auto
  qed
qed

text \<open>
  Claim C2. A pass through the loop body that gets past the \<^verbatim>\<open>AT_CAPTURE\<close> wait reaches
  the recording step whatever the camera, the measurement and the \<^verbatim>\<open>AT_HOME\<close> wait do: it
  writes one row carrying the current index and leaves the index one higher. Over a whole
  run the rows written carry the indices 1, 2, 3 and so on in this order, up to one
  below the index the run ends with.
\<close>

theorem sample_index_advances:
  "(fst (wait_for_arduino (ser_write ''C'' (port w)) ''AT_CAPTURE'' 15000) \<longrightarrow>
      fst (cycle cfg e sample_idx w) = sample_idx + 1 \<and>
      recorded_indices (csv_log (snd (cycle cfg e sample_idx w))) =
        recorded_indices (csv_log w) @ [sample_idx]) \<and>
   recorded_indices (csv_log (snd (main cfg e keyboard w0))) =
     recorded_indices (csv_log w0) @
       (case fst (main cfg e keyboard w0) of
          Done n \<Rightarrow> [1 ..< n] | EOFError n \<Rightarrow> [1 ..< n] | NoCamera \<Rightarrow> [])"
  using cycle_completed[of w cfg e sample_idx] main_indices[of cfg e keyboard w0] by blast

theorem sample_index_advances_witness:
  "fst (wait_for_arduino (ser_write ''C'' (port prompt_world)) ''AT_CAPTURE'' 15000) \<and>
   fst (cycle source_config example_env 1 prompt_world) = 2 \<and>
   recorded_indices (csv_log (snd (cycle source_config example_env 1 prompt_world))) = [1]"
proof -
  let ?s = "ser_write ''C'' (port prompt_world)"
  have "strip (snd (nth_read ?s 1)) = ''AT_CAPTURE'' \<and> elapsed_before ?s 1 \<le> 15000"
    by (simp add: prompt_world_def ser_write_def nth_read_def strip_def isspace_def
        code_point_def)
  then have ok: "fst (wait_for_arduino ?s ''AT_CAPTURE'' 15000)"
    unfolding wait_for_arduino_iff by (rule exI)
  have "recorded_indices (csv_log prompt_world) = []"
    by (simp add: prompt_world_def recorded_indices_def map_filter_simps)
  with ok sample_index_advances[of prompt_world source_config example_env 1]
  show ?thesis by simp
qed

section \<open>Cropping\<close>

lemma apply_crop_outside:
  assumes "0 \<le> CROP_X cfg" and "0 \<le> CROP_Y cfg" and "intersection_empty cfg img"
  shows "apply_crop cfg img = img"
  using assms by (auto simp: apply_crop_def intersection_empty_def Let_def)

lemma discard_frames_camera: "camera (discard_frames n w) = drop n (camera w)"
proof (induction n arbitrary: w)
  case 0 show ?case by simp
next
  case (Suc n)
  show ?case
    by (cases "camera w") (simp_all add: Suc cap_read_def)
qed

lemma capture_image_enhanced:
  assumes "SAVE_ENHANCED cfg" and "drop (WARMUP_FRAMES cfg) (camera w) = Some frame # later"
  shows "last (images (snd (capture_image cfg e sample_idx w))) =
         (snd (fst (capture_image cfg e sample_idx w)),
          enhance_image_soft (cv e) (apply_crop cfg frame))"
proof -
  let ?w2 = "discard_frames (WARMUP_FRAMES cfg)
               (w\<lparr>port := time_sleep (FOCUS_WAIT_SECONDS cfg) (port w)\<rparr>)"
  from assms(2) have "camera ?w2 = Some frame # later"
    by (simp add: discard_frames_camera)
  then have "fst (cap_read ?w2) = Some frame"
    by (simp add: cap_read_def)
  with assms(1) show ?thesis
    by (simp add: capture_image_def Let_def imwrite_def)
qed

text \<open>
  Claim C9, as amended. When cropping is configured with an origin that is not
  negative and the rectangle has no pixel in common with the frame, the crop returns
  the frame as it is; and the enhanced image a cycle writes is the enhancement of the
  cropped frame, so the crop comes first.
\<close>

theorem crop_outside_then_enhance:
  "(0 \<le> CROP_X cfg \<and> 0 \<le> CROP_Y cfg \<and> intersection_empty cfg img \<longrightarrow>
      apply_crop cfg img = img) \<and>
   (SAVE_ENHANCED cfg \<and> drop (WARMUP_FRAMES cfg) (camera w) = Some frame # later \<longrightarrow>
      last (images (snd (capture_image cfg e sample_idx w))) =
        (snd (fst (capture_image cfg e sample_idx w)),
         enhance_image_soft (cv e) (apply_crop cfg frame)))"
  using apply_crop_outside[of cfg img] capture_image_enhanced[of cfg w frame later e sample_idx]
  by blast

theorem crop_outside_then_enhance_witness:
  "intersection_empty right_of_frame example_frame \<and>
   apply_crop right_of_frame example_frame = example_frame \<and>
   last (images (snd (capture_image right_column example_env 1 prompt_world))) =
     (snd (fst (capture_image right_column example_env 1 prompt_world)), [[2], [4]])"
proof -
  have a: "0 \<le> CROP_X right_of_frame \<and> 0 \<le> CROP_Y right_of_frame \<and>
           intersection_empty right_of_frame example_frame"
    by (simp add: right_of_frame_def source_config_def intersection_empty_def example_frame_def)
  have "drop 5 (replicate 7 (Some example_frame)) = Some example_frame # [Some example_frame]"
    by (simp add: numeral_eq_Suc)
  then have b: "SAVE_ENHANCED right_column \<and>
     drop (WARMUP_FRAMES right_column) (camera prompt_world) =
       Some example_frame # [Some example_frame]"
    by (simp add: right_column_def source_config_def prompt_world_def)
  have c: "enhance_image_soft (cv example_env) (apply_crop right_column example_frame) =
           [[2], [4]]"
    by (simp add: enhance_image_soft_def example_env_def apply_crop_def right_column_def
        source_config_def example_frame_def Let_def)
  from a b c
    crop_outside_then_enhance[of right_of_frame example_frame prompt_world example_frame
      "[Some example_frame]" example_env 1]
    crop_outside_then_enhance[of right_column example_frame prompt_world example_frame
      "[Some example_frame]" example_env 1]
  show ?thesis by simp
qed

theorem crop_left_of_frame_changes_it:
  "intersection_empty left_of_frame example_frame \<and>
   apply_crop left_of_frame example_frame = [[1]] \<and>
   apply_crop left_of_frame example_frame \<noteq> example_frame"
  by (simp add: left_of_frame_def source_config_def intersection_empty_def apply_crop_def
      example_frame_def Let_def)

end
